theory Spec2Isabelle
  imports Main "HOL-Library.AList" "HOL-Library.Sublist"
begin

section \<open>The relay server of faceterm (asciichat-server/main.go)\<close>

text \<open>
  The server keeps a registry of at most two clients and relays every frame it reads from
  one of them to the outbound queue of the other. The Go program is embedded as follows.
  \<^item> Pointers are addresses: a \<^verbatim>\<open>*Client\<close> is an index into the list of allocated
    \<^verbatim>\<open>Client\<close> structs, a channel is an index into the list of channels made so far, and an
    address outside the list is \<^verbatim>\<open>nil\<close>. Allocation appends.
  \<^item> A Go map is an association list with distinct keys; its order is the order in which
    \<^verbatim>\<open>range\<close> visits it.
  \<^item> A run-time panic is a value: every operation that can panic returns the panic (if
    any) together with the state the panic leaves behind.
  \<^item> \<^verbatim>\<open>Server.mu\<close> is held for the whole body of \<^verbatim>\<open>add\<close>, \<^verbatim>\<open>remove\<close> and
    \<^verbatim>\<open>broadcast\<close>, so each of them is one atomic state transformer; the goroutines are
    interleaved at the granularity of one loop iteration, whose outcome of the blocking
    network call is an input of the step.
  \<^item> What the program does to the outside (frames written, connections closed, log lines)
    is appended to a trace.
\<close>

subsection \<open>Data\<close>

type_synonym bytes = string
type_synonym conn_ref = nat
type_synonym chan_ref = nat
type_synonym client_ref = nat

definition maxClients :: nat where
  "maxClients = 2"

text \<open>\<^verbatim>\<open>type Client struct { conn *websocket.Conn; send chan []byte }\<close>\<close>

record Client =
  conn :: conn_ref
  send :: chan_ref

text \<open>A buffered channel: its capacity, the values waiting in it, and whether it was closed.\<close>

record chan =
  cap :: nat
  buf :: "bytes list"
  closed :: bool

datatype panic = NilDereference | CloseOfNilChannel | CloseOfClosedChannel | SendOnClosedChannel

datatype message_type = TextMessage | BinaryMessage

datatype effect =
    ConnWrite conn_ref message_type bytes
  | ConnClose conn_ref
  | LogPrintln string nat

datatype goroutine = Reader client_ref | Writer client_ref

text \<open>
  The state of the process: \<open>clients\<close> is the field of the one \<^verbatim>\<open>Server\<close>; the other
  fields are the heap, the connections handed out so far, the loops that are running and
  the trace of effects.
\<close>

record world =
  clients :: "(client_ref \<times> bool) list"
  client_heap :: "Client list"
  chans :: "chan list"
  next_conn :: conn_ref
  goroutines :: "goroutine list"
  trace :: "effect list"

definition deref :: "'a list \<Rightarrow> nat \<Rightarrow> 'a option" where
  "deref xs i = (if i < length xs then Some (xs ! i) else None)"

definition members :: "world \<Rightarrow> client_ref set" where
  "members s = fst ` set (clients s)"

text \<open>\<^verbatim>\<open>NewServer()\<close> at process start: an empty map, nothing allocated, nothing running.\<close>

definition NewServer :: world where
  "NewServer = \<lparr>clients = [], client_heap = [], chans = [], next_conn = 0,
     goroutines = [], trace = []\<rparr>"

subsection \<open>The registry\<close>

text \<open>
  \<^verbatim>\<open>func (s *Server) add(c *Client) bool\<close>: refuses when \<^verbatim>\<open>len(s.clients) >= maxClients\<close>,
  otherwise stores \<^verbatim>\<open>s.clients[c] = true\<close> and logs the new total.
\<close>

definition add :: "world \<Rightarrow> client_ref \<Rightarrow> bool \<times> world" where
  "add s c =
     (if length (clients s) \<ge> maxClients then (False, s)
      else
        (let s1 = s\<lparr>clients := AList.update c True (clients s)\<rparr>
         in (True, s1\<lparr>trace := trace s1 @
               [LogPrintln ''client connected, total:'' (length (clients s1))]\<rparr>)))"

text \<open>
  \<^verbatim>\<open>func (s *Server) remove(c *Client)\<close>: \<^verbatim>\<open>delete(s.clients, c)\<close>, then
  \<^verbatim>\<open>close(c.send)\<close>, then the log line. Reading \<^verbatim>\<open>c.send\<close> through a nil pointer,
  closing a nil channel and closing a closed channel panic; the deletion has happened by
  then and the log line has not.
\<close>

definition remove_client :: "world \<Rightarrow> client_ref \<Rightarrow> panic option \<times> world" where
  "remove_client s c =
     (let s1 = s\<lparr>clients := AList.delete c (clients s)\<rparr> in
      case deref (client_heap s1) c of
        None \<Rightarrow> (Some NilDereference, s1)
      | Some cl \<Rightarrow>
          (case deref (chans s1) (send cl) of
             None \<Rightarrow> (Some CloseOfNilChannel, s1)
           | Some ch \<Rightarrow>
               if closed ch then (Some CloseOfClosedChannel, s1)
               else
                 (let s2 = s1\<lparr>chans := (chans s1)[send cl := ch\<lparr>closed := True\<rparr>]\<rparr>
                  in (None, s2\<lparr>trace := trace s2 @
                        [LogPrintln ''client disconnected, total:'' (length (clients s2))]\<rparr>))))"

text \<open>
  \<^verbatim>\<open>select { case c.send <- msg: default: }\<close> on channel \<open>r\<close>: a nil channel is never
  ready, so the default branch runs; a send on a closed channel panics; otherwise the value
  is appended when the buffer has room and dropped when it has not.
\<close>

definition select_send :: "world \<Rightarrow> chan_ref \<Rightarrow> bytes \<Rightarrow> panic option \<times> world" where
  "select_send s r msg =
     (case deref (chans s) r of
        None \<Rightarrow> (None, s)
      | Some ch \<Rightarrow>
          if closed ch then (Some SendOnClosedChannel, s)
          else if length (buf ch) < cap ch
          then (None, s\<lparr>chans := (chans s)[r := ch\<lparr>buf := buf ch @ [msg]\<rparr>]\<rparr>)
          else (None, s))"

text \<open>
  \<^verbatim>\<open>func (s *Server) broadcast(sender *Client, msg []byte)\<close>: the loop over the map
  (its keys do not change while the lock is held), skipping the sender.
\<close>

fun broadcast_loop ::
  "(client_ref \<times> bool) list \<Rightarrow> client_ref \<Rightarrow> bytes \<Rightarrow> world \<Rightarrow> panic option \<times> world" where
  "broadcast_loop [] sender msg s = (None, s)"
| "broadcast_loop ((c, v) # rest) sender msg s =
     (if c \<noteq> sender then
        (case deref (client_heap s) c of
           None \<Rightarrow> (Some NilDereference, s)
         | Some cl \<Rightarrow>
             (case select_send s (send cl) msg of
                (Some p, s') \<Rightarrow> (Some p, s')
              | (None, s') \<Rightarrow> broadcast_loop rest sender msg s'))
      else broadcast_loop rest sender msg s)"

definition broadcast :: "world \<Rightarrow> client_ref \<Rightarrow> bytes \<Rightarrow> panic option \<times> world" where
  "broadcast s sender msg = broadcast_loop (clients s) sender msg s"

subsection \<open>The websocket endpoint\<close>

text \<open>
  \<^verbatim>\<open>var upgrader = websocket.Upgrader{CheckOrigin: func(r *http.Request) bool { return true }}\<close>.
  Of the request only the header the check is meant to look at is kept.
\<close>

record http_request =
  origin :: "string option"
  host :: string

record Upgrader =
  CheckOrigin :: "http_request \<Rightarrow> bool"

definition upgrader :: Upgrader where
  "upgrader = \<lparr>CheckOrigin = (\<lambda>r. True)\<rparr>"

text \<open>
  \<^verbatim>\<open>func (s *Server) handleWS(w, r)\<close> up to the point where the two loops start.
  \<open>upgrade_ok\<close> is whether \<^verbatim>\<open>upgrader.Upgrade\<close> returned a connection; a connection it
  returns is a new one. The \<^verbatim>\<open>Client\<close> and its channel of capacity 16 are made before
  \<^verbatim>\<open>add\<close> is called.
\<close>

definition handleWS :: "world \<Rightarrow> bool \<Rightarrow> world" where
  "handleWS s upgrade_ok =
     (if \<not> upgrade_ok then s
      else
        (let cn = next_conn s;
             s1 = s\<lparr>next_conn := Suc cn\<rparr>;
             ch = length (chans s1);
             s2 = s1\<lparr>chans := chans s1 @ [\<lparr>cap = 16, buf = [], closed = False\<rparr>]\<rparr>;
             c = length (client_heap s2);
             s3 = s2\<lparr>client_heap := client_heap s2 @ [\<lparr>conn = cn, send = ch\<rparr>]\<rparr>;
             (ok, s4) = add s3 c
         in if \<not> ok
            then s4\<lparr>trace := trace s4 @
                   [ConnWrite cn TextMessage ''room full (2 clients max)'', ConnClose cn]\<rparr>
            else s4\<lparr>goroutines := goroutines s4 @ [Writer c, Reader c]\<rparr>))"

text \<open>
  The deferred function of \<^verbatim>\<open>reader\<close>: \<^verbatim>\<open>s.remove(c); c.conn.Close()\<close>. A panic in
  \<^verbatim>\<open>remove\<close> skips the close.
\<close>

definition reader_deferred :: "world \<Rightarrow> client_ref \<Rightarrow> panic option \<times> world" where
  "reader_deferred s c =
     (case remove_client s c of
        (Some p, s1) \<Rightarrow> (Some p, s1)
      | (None, s1) \<Rightarrow>
          (case deref (client_heap s1) c of
             None \<Rightarrow> (Some NilDereference, s1)
           | Some cl \<Rightarrow> (None, s1\<lparr>trace := trace s1 @ [ConnClose (conn cl)]\<rparr>)))"

definition exit_goroutine :: "goroutine \<Rightarrow> world \<Rightarrow> world" where
  "exit_goroutine g s = s\<lparr>goroutines := removeAll g (goroutines s)\<rparr>"

text \<open>
  One iteration of the loop of \<^verbatim>\<open>func (s *Server) reader(c *Client)\<close>. \<open>rd\<close> is what
  \<^verbatim>\<open>c.conn.ReadMessage()\<close> returned: \<open>Some msg\<close>, or \<open>None\<close> for an error. A frame is
  broadcast; an error returns, which runs the deferred function. A panic of the broadcast
  runs the deferred function too and goes on (replaced by a panic of the deferred function,
  if it has one). A reader that is not running does nothing.
\<close>

definition reader_step :: "world \<Rightarrow> client_ref \<Rightarrow> bytes option \<Rightarrow> panic option \<times> world" where
  "reader_step s c rd =
     (if Reader c \<notin> set (goroutines s) then (None, s)
      else
        (case deref (client_heap s) c of
           None \<Rightarrow>
             (case reader_deferred s c of
                (q, s1) \<Rightarrow>
                  (Some (case q of None \<Rightarrow> NilDereference | Some p' \<Rightarrow> p'),
                   exit_goroutine (Reader c) s1))
         | Some cl \<Rightarrow>
             (case rd of
                None \<Rightarrow>
                  (case reader_deferred s c of
                     (q, s1) \<Rightarrow> (q, exit_goroutine (Reader c) s1))
              | Some msg \<Rightarrow>
                  (case broadcast s c msg of
                     (None, s1) \<Rightarrow> (None, s1)
                   | (Some p, s1) \<Rightarrow>
                       (case reader_deferred s1 c of
                          (q, s2) \<Rightarrow>
                            (Some (case q of None \<Rightarrow> p | Some p' \<Rightarrow> p'),
                             exit_goroutine (Reader c) s2))))))"

text \<open>
  One iteration of \<^verbatim>\<open>for msg := range c.send\<close> in \<^verbatim>\<open>func (s *Server) writer(c *Client)\<close>.
  With a value waiting (also in a closed channel) the loop takes the oldest one and calls
  \<^verbatim>\<open>WriteMessage\<close>; \<open>write_ok\<close> is whether that call returned no error, and on an error
  the function returns. With nothing waiting the loop ends when the channel is closed and
  blocks otherwise (also on a nil channel): the step changes nothing.
\<close>

definition writer_step :: "world \<Rightarrow> client_ref \<Rightarrow> bool \<Rightarrow> panic option \<times> world" where
  "writer_step s c write_ok =
     (if Writer c \<notin> set (goroutines s) then (None, s)
      else
        (case deref (client_heap s) c of
           None \<Rightarrow> (Some NilDereference, exit_goroutine (Writer c) s)
         | Some cl \<Rightarrow>
             (case deref (chans s) (send cl) of
                None \<Rightarrow> (None, s)
              | Some ch \<Rightarrow>
                  (case buf ch of
                     [] \<Rightarrow> if closed ch then (None, exit_goroutine (Writer c) s) else (None, s)
                   | msg # rest \<Rightarrow>
                       (let s1 = s\<lparr>chans := (chans s)[send cl := ch\<lparr>buf := rest\<rparr>]\<rparr>;
                            s2 = s1\<lparr>trace := trace s1 @ [ConnWrite (conn cl) TextMessage msg]\<rparr>
                        in if write_ok then (None, s2)
                           else (None, exit_goroutine (Writer c) s2))))))"

subsection \<open>Runs of the server\<close>

datatype event =
    Connect bool
  | ReaderIter client_ref "bytes option"
  | WriterIter client_ref bool

fun step :: "world \<Rightarrow> event \<Rightarrow> panic option \<times> world" where
  "step s (Connect upgrade_ok) = (None, handleWS s upgrade_ok)"
| "step s (ReaderIter c rd) = reader_step s c rd"
| "step s (WriterIter c write_ok) = writer_step s c write_ok"

text \<open>A run stops at the first panic.\<close>

fun run :: "world \<Rightarrow> event list \<Rightarrow> panic option \<times> world" where
  "run s [] = (None, s)"
| "run s (e # es) =
     (case step s e of
        (Some p, s') \<Rightarrow> (Some p, s')
      | (None, s') \<Rightarrow> run s' es)"

text \<open>
  Sequences of registry operations alone. A panic of \<^verbatim>\<open>remove\<close> leaves the deletion in
  place; the sequence goes on from the state the panic left.
\<close>

datatype registry_op = Add client_ref | Remove client_ref

fun apply_op :: "world \<Rightarrow> registry_op \<Rightarrow> world" where
  "apply_op s (Add c) = snd (add s c)"
| "apply_op s (Remove c) = snd (remove_client s c)"

fun apply_ops :: "world \<Rightarrow> registry_op list \<Rightarrow> world" where
  "apply_ops s [] = s"
| "apply_ops s (x # xs) = apply_ops (apply_op s x) xs"

subsection \<open>Well-formed states and what a client has received\<close>

text \<open>
  The states the server can be in: the map has distinct keys and at most \<open>maxClients\<close> of
  them; a registered client is allocated, its reader is running and its channel is open;
  a running reader belongs to a registered client and a running writer to an allocated
  one; every client has a channel and a connection of its own; every channel has capacity
  16 and holds no more than that.
\<close>

fun goroutine_ok :: "world \<Rightarrow> goroutine \<Rightarrow> bool" where
  "goroutine_ok s (Reader c) = (c \<in> members s)"
| "goroutine_ok s (Writer c) = (c < length (client_heap s))"

definition wf_world :: "world \<Rightarrow> bool" where
  "wf_world s \<longleftrightarrow>
     distinct (map fst (clients s)) \<and>
     length (clients s) \<le> maxClients \<and>
     (\<forall>c\<in>members s. c < length (client_heap s) \<and> Reader c \<in> set (goroutines s) \<and>
        \<not> closed (chans s ! send (client_heap s ! c))) \<and>
     (\<forall>g\<in>set (goroutines s). goroutine_ok s g) \<and>
     (\<forall>cl\<in>set (client_heap s). send cl < length (chans s) \<and> conn cl < next_conn s) \<and>
     distinct (map send (client_heap s)) \<and>
     distinct (map conn (client_heap s)) \<and>
     (\<forall>ch\<in>set (chans s). cap ch = 16 \<and> length (buf ch) \<le> 16)"

text \<open>
  The state after the three allocations at the head of \<^verbatim>\<open>handleWS\<close>: the connection
  returned by the upgrade, the channel and the \<^verbatim>\<open>Client\<close>.
\<close>

definition alloc_client :: "world \<Rightarrow> world" where
  "alloc_client s = s\<lparr>next_conn := Suc (next_conn s),
      chans := chans s @ [\<lparr>cap = 16, buf = [], closed = False\<rparr>],
      client_heap := client_heap s @ [\<lparr>conn = next_conn s, send = length (chans s)\<rparr>]\<rparr>"

text \<open>The payloads passed to \<^verbatim>\<open>WriteMessage\<close> on a connection, oldest first.\<close>

fun writes_on :: "conn_ref \<Rightarrow> effect list \<Rightarrow> bytes list" where
  "writes_on cn [] = []"
| "writes_on cn (ConnWrite cn' mt m # es) =
     (if cn' = cn then m # writes_on cn es else writes_on cn es)"
| "writes_on cn (ConnClose cn' # es) = writes_on cn es"
| "writes_on cn (LogPrintln l n # es) = writes_on cn es"

text \<open>
  What the writer of client \<open>b\<close> has taken from the queue so far, what still waits in the
  queue, and the payloads read from client \<open>a\<close> in a list of events.
\<close>

definition delivered :: "world \<Rightarrow> client_ref \<Rightarrow> bytes list" where
  "delivered s b = writes_on (conn (client_heap s ! b)) (trace s)"

definition pending :: "world \<Rightarrow> client_ref \<Rightarrow> bytes list" where
  "pending s b = buf (chans s ! send (client_heap s ! b))"

fun sent_by :: "client_ref \<Rightarrow> event list \<Rightarrow> bytes list" where
  "sent_by a [] = []"
| "sent_by a (ReaderIter c (Some m) # es) = (if c = a then m # sent_by a es else sent_by a es)"
| "sent_by a (ReaderIter c None # es) = sent_by a es"
| "sent_by a (Connect ok # es) = sent_by a es"
| "sent_by a (WriterIter c ok # es) = sent_by a es"

fun reads_of :: "event \<Rightarrow> client_ref option" where
  "reads_of (ReaderIter c (Some m)) = Some c"
| "reads_of (ReaderIter c None) = None"
| "reads_of (Connect ok) = None"
| "reads_of (WriterIter c ok) = None"

text \<open>
  Everything client \<open>b\<close> has been given so far, in order: what its writer took, then what
  still waits. \<open>offered b evs\<close> are the payloads read from clients other than \<open>b\<close>.
\<close>

definition received :: "world \<Rightarrow> client_ref \<Rightarrow> bytes list" where
  "received s b = delivered s b @ pending s b"

fun offered :: "client_ref \<Rightarrow> event list \<Rightarrow> bytes list" where
  "offered b [] = []"
| "offered b (ReaderIter c (Some m) # es) = (if c \<noteq> b then m # offered b es else offered b es)"
| "offered b (ReaderIter c None # es) = offered b es"
| "offered b (Connect ok # es) = offered b es"
| "offered b (WriterIter c ok # es) = offered b es"

section \<open>Properties\<close>

subsection \<open>Auxiliary facts\<close>

lemma card_members: "distinct (map fst (clients s)) \<Longrightarrow> card (members s) = length (clients s)"
  unfolding members_def using distinct_card[of "map fst (clients s)"] by simp

lemma keys_update: "fst ` set (AList.update c v xs) = insert c (fst ` set xs)"
  using dom_update[of c v xs] by (simp add: image_def)

lemma keys_delete: "fst ` set (AList.delete c xs) = fst ` set xs - {c}"
  by (induction xs) auto

lemma length_alist_delete: "length (AList.delete c xs) \<le> length xs"
  by (simp add: AList.delete_eq)

lemma length_alist_update: "length (AList.update c v xs) \<le> Suc (length xs)"
  by (induction xs) auto

lemma add_clients_len:
  "length (clients s) \<le> maxClients \<Longrightarrow> length (clients (snd (add s c))) \<le> maxClients"
  using length_alist_update[of c True "clients s"] by (auto simp: add_def Let_def)

lemma add_distinct:
  "distinct (map fst (clients s)) \<Longrightarrow> distinct (map fst (clients (snd (add s c))))"
  by (auto simp: add_def Let_def distinct_update)

lemma remove_clients: "clients (snd (remove_client s c)) = AList.delete c (clients s)"
  by (auto simp: remove_client_def Let_def split: option.splits)

lemma apply_op_inv:
  assumes "distinct (map fst (clients s))" "length (clients s) \<le> maxClients"
  shows "distinct (map fst (clients (apply_op s x)))" "length (clients (apply_op s x)) \<le> maxClients"
proof -
  show "distinct (map fst (clients (apply_op s x)))"
    using assms(1) add_distinct by (cases x) (simp_all add: remove_clients distinct_delete)
  show "length (clients (apply_op s x)) \<le> maxClients"
  proof (cases x)
    case (Add c)
    then show ?thesis using assms(2) add_clients_len by simp
  next
    case (Remove c)
    then show ?thesis
      using assms(2) length_alist_delete[of c "clients s"] by (simp add: remove_clients)
  qed
qed

lemma apply_ops_inv:
  "distinct (map fst (clients s)) \<Longrightarrow> length (clients s) \<le> maxClients \<Longrightarrow>
   distinct (map fst (clients (apply_ops s ops))) \<and>
   length (clients (apply_ops s ops)) \<le> maxClients"
proof (induction ops arbitrary: s)
  case Nil
  then show ?case by simp
next
  case (Cons x xs)
  show ?case using Cons.IH[OF apply_op_inv[OF Cons.prems, of x]] by simp
qed

lemma select_send_spec:
  assumes "r < length (chans s)" "\<not> closed (chans s ! r)"
  shows "select_send s r msg = (None, s\<lparr>chans := (chans s)[r :=
      (if length (buf (chans s ! r)) < cap (chans s ! r)
       then (chans s ! r)\<lparr>buf := buf (chans s ! r) @ [msg]\<rparr> else chans s ! r)]\<rparr>)"
  using assms by (simp add: select_send_def deref_def)

lemma broadcast_loop_spec:
  assumes "distinct (map fst xs)" "distinct (map send (client_heap s))"
   "\<forall>c\<in>fst ` set xs. c < length (client_heap s) \<and> send (client_heap s ! c) < length (chans s)
        \<and> \<not> closed (chans s ! send (client_heap s ! c))"
  shows "\<exists>cs. broadcast_loop xs sender msg s = (None, s\<lparr>chans := cs\<rparr>) \<and> length cs = length (chans s)
     \<and> (\<forall>r<length cs. cs ! r =
          (if (\<exists>c\<in>fst ` set xs. c \<noteq> sender \<and> send (client_heap s ! c) = r)
               \<and> length (buf (chans s ! r)) < cap (chans s ! r)
           then (chans s ! r)\<lparr>buf := buf (chans s ! r) @ [msg]\<rparr> else chans s ! r))"
  using assms
proof (induction xs arbitrary: s)
  case Nil
  show ?case by (rule exI[of _ "chans s"]) simp
next
  case (Cons x xs)
  obtain c v where x: "x = (c, v)" by (cases x)
  show ?case
  proof (cases "c = sender")
    case True
    have "\<exists>cs. broadcast_loop xs sender msg s = (None, s\<lparr>chans := cs\<rparr>) \<and> length cs = length (chans s)
     \<and> (\<forall>r<length cs. cs ! r =
          (if (\<exists>c\<in>fst ` set xs. c \<noteq> sender \<and> send (client_heap s ! c) = r)
               \<and> length (buf (chans s ! r)) < cap (chans s ! r)
           then (chans s ! r)\<lparr>buf := buf (chans s ! r) @ [msg]\<rparr> else chans s ! r))"
      using Cons.prems by (intro Cons.IH) auto
    then show ?thesis using True x by auto
  next
    case False
    let ?r0 = "send (client_heap s ! c)"
    let ?ch' = "(if length (buf (chans s ! ?r0)) < cap (chans s ! ?r0)
       then (chans s ! ?r0)\<lparr>buf := buf (chans s ! ?r0) @ [msg]\<rparr> else chans s ! ?r0)"
    let ?s1 = "s\<lparr>chans := (chans s)[?r0 := ?ch']\<rparr>"
    have c: "c < length (client_heap s)" "?r0 < length (chans s)" "\<not> closed (chans s ! ?r0)"
      using Cons.prems(3) x by auto
    have ss: "select_send s ?r0 msg = (None, ?s1)"
      using select_send_spec[OF c(2,3)] by simp
    have other: "\<forall>c'\<in>fst ` set xs. send (client_heap s ! c') \<noteq> ?r0"
    proof
      fix c' assume c': "c' \<in> fst ` set xs"
      then have "c' \<noteq> c" using Cons.prems(1) x by auto
      moreover have "c' < length (client_heap s)" using Cons.prems(3) c' by auto
      ultimately show "send (client_heap s ! c') \<noteq> ?r0"
        using Cons.prems(2) c(1) by (simp add: distinct_conv_nth)
    qed
    have "\<exists>cs. broadcast_loop xs sender msg ?s1 = (None, ?s1\<lparr>chans := cs\<rparr>) \<and> length cs = length (chans ?s1)
     \<and> (\<forall>r<length cs. cs ! r =
          (if (\<exists>c\<in>fst ` set xs. c \<noteq> sender \<and> send (client_heap ?s1 ! c) = r)
               \<and> length (buf (chans ?s1 ! r)) < cap (chans ?s1 ! r)
           then (chans ?s1 ! r)\<lparr>buf := buf (chans ?s1 ! r) @ [msg]\<rparr> else chans ?s1 ! r))"
    proof (rule Cons.IH)
      show "distinct (map fst xs)" using Cons.prems(1) by simp
      show "distinct (map send (client_heap ?s1))" using Cons.prems(2) by simp
      show "\<forall>c\<in>fst ` set xs. c < length (client_heap ?s1) \<and> send (client_heap ?s1 ! c) < length (chans ?s1)
        \<and> \<not> closed (chans ?s1 ! send (client_heap ?s1 ! c))"
      proof
        fix c' assume c': "c' \<in> fst ` set xs"
        have "send (client_heap s ! c') \<noteq> ?r0" using other c' by blast
        then have "chans ?s1 ! send (client_heap s ! c') = chans s ! send (client_heap s ! c')"
          by simp
        moreover have "c' \<in> fst ` set (x # xs)" using c' by auto
        then have "c' < length (client_heap s) \<and> send (client_heap s ! c') < length (chans s)
              \<and> \<not> closed (chans s ! send (client_heap s ! c'))"
          using Cons.prems(3) by blast
        ultimately show "c' < length (client_heap ?s1) \<and> send (client_heap ?s1 ! c') < length (chans ?s1)
        \<and> \<not> closed (chans ?s1 ! send (client_heap ?s1 ! c'))"
          by simp
      qed
    qed
    then obtain cs where cs: "broadcast_loop xs sender msg ?s1 = (None, ?s1\<lparr>chans := cs\<rparr>)"
      "length cs = length (chans s)"
      "\<forall>r<length cs. cs ! r =
          (if (\<exists>c\<in>fst ` set xs. c \<noteq> sender \<and> send (client_heap s ! c) = r)
               \<and> length (buf (chans ?s1 ! r)) < cap (chans ?s1 ! r)
           then (chans ?s1 ! r)\<lparr>buf := buf (chans ?s1 ! r) @ [msg]\<rparr> else chans ?s1 ! r)"
      by auto
    have bl: "broadcast_loop (x # xs) sender msg s = (None, s\<lparr>chans := cs\<rparr>)"
      using x False c(1) ss cs(1) by (simp add: deref_def)
    have "\<forall>r<length cs. cs ! r =
          (if (\<exists>c\<in>fst ` set (x # xs). c \<noteq> sender \<and> send (client_heap s ! c) = r)
               \<and> length (buf (chans s ! r)) < cap (chans s ! r)
           then (chans s ! r)\<lparr>buf := buf (chans s ! r) @ [msg]\<rparr> else chans s ! r)"
    proof (intro allI impI)
      fix r assume r: "r < length cs"
      show "cs ! r =
          (if (\<exists>c\<in>fst ` set (x # xs). c \<noteq> sender \<and> send (client_heap s ! c) = r)
               \<and> length (buf (chans s ! r)) < cap (chans s ! r)
           then (chans s ! r)\<lparr>buf := buf (chans s ! r) @ [msg]\<rparr> else chans s ! r)"
      proof (cases "r = ?r0")
        case True
        have "cs ! r = chans ?s1 ! r" using cs(3) r other True by auto
        then show ?thesis using True False x c(2) by auto
      next
        case False
        have "chans ?s1 ! r = chans s ! r" using False by simp
        then show ?thesis using cs(3) r False x by auto
      qed
    qed
    then show ?thesis using bl cs(2) by blast
  qed
qed

lemma wf_heap_chan:
  assumes "wf_world s" "c < length (client_heap s)"
  shows "send (client_heap s ! c) < length (chans s)" "conn (client_heap s ! c) < next_conn s"
  using assms unfolding wf_world_def by (auto simp: all_set_conv_all_nth)

lemma wf_chan_bound:
  assumes "wf_world s" "r < length (chans s)"
  shows "cap (chans s ! r) = 16" "length (buf (chans s ! r)) \<le> 16"
  using assms unfolding wf_world_def by (auto simp: all_set_conv_all_nth)

lemma wf_member:
  assumes "wf_world s" "c \<in> members s"
  shows "c < length (client_heap s)" "Reader c \<in> set (goroutines s)"
    "\<not> closed (chans s ! send (client_heap s ! c))"
  using assms unfolding wf_world_def by auto

lemma wf_send_inj:
  assumes "wf_world s" "c < length (client_heap s)" "c' < length (client_heap s)"
    "send (client_heap s ! c) = send (client_heap s ! c')"
  shows "c = c'"
proof -
  have "distinct (map send (client_heap s))" using assms(1) unfolding wf_world_def by simp
  then show ?thesis using assms(2-4) by (auto simp: distinct_conv_nth)
qed

lemma wf_conn_inj:
  assumes "wf_world s" "c < length (client_heap s)" "c' < length (client_heap s)"
    "conn (client_heap s ! c) = conn (client_heap s ! c')"
  shows "c = c'"
proof -
  have "distinct (map conn (client_heap s))" using assms(1) unfolding wf_world_def by simp
  then show ?thesis using assms(2-4) by (auto simp: distinct_conv_nth)
qed

lemma broadcast_spec:
  assumes wf: "wf_world s"
  shows "\<exists>cs. broadcast s sender msg = (None, s\<lparr>chans := cs\<rparr>) \<and> length cs = length (chans s)
     \<and> (\<forall>r<length cs. cs ! r =
          (if (\<exists>c\<in>members s. c \<noteq> sender \<and> send (client_heap s ! c) = r)
               \<and> length (buf (chans s ! r)) < 16
           then (chans s ! r)\<lparr>buf := buf (chans s ! r) @ [msg]\<rparr> else chans s ! r))"
proof -
  have d: "distinct (map fst (clients s))" "distinct (map send (client_heap s))"
    using wf unfolding wf_world_def by simp_all
  have m: "\<forall>c\<in>fst ` set (clients s). c < length (client_heap s) \<and>
      send (client_heap s ! c) < length (chans s) \<and>
      \<not> closed (chans s ! send (client_heap s ! c))"
    using wf_member[OF wf] wf_heap_chan(1)[OF wf] by (simp add: members_def)
  obtain cs where cs: "broadcast_loop (clients s) sender msg s = (None, s\<lparr>chans := cs\<rparr>)"
    "length cs = length (chans s)"
    "\<forall>r<length cs. cs ! r =
          (if (\<exists>c\<in>fst ` set (clients s). c \<noteq> sender \<and> send (client_heap s ! c) = r)
               \<and> length (buf (chans s ! r)) < cap (chans s ! r)
           then (chans s ! r)\<lparr>buf := buf (chans s ! r) @ [msg]\<rparr> else chans s ! r)"
    using broadcast_loop_spec[OF d m, of sender msg] by blast
  have "\<forall>r<length cs. cs ! r =
          (if (\<exists>c\<in>members s. c \<noteq> sender \<and> send (client_heap s ! c) = r)
               \<and> length (buf (chans s ! r)) < 16
           then (chans s ! r)\<lparr>buf := buf (chans s ! r) @ [msg]\<rparr> else chans s ! r)"
  proof (intro allI impI)
    fix r assume r: "r < length cs"
    then have "cap (chans s ! r) = 16" using wf_chan_bound(1)[OF wf] cs(2) by simp
    then show "cs ! r =
          (if (\<exists>c\<in>members s. c \<noteq> sender \<and> send (client_heap s ! c) = r)
               \<and> length (buf (chans s ! r)) < 16
           then (chans s ! r)\<lparr>buf := buf (chans s ! r) @ [msg]\<rparr> else chans s ! r)"
      using cs(3) r by (simp add: members_def)
  qed
  then show ?thesis unfolding broadcast_def using cs(1,2) by blast
qed

lemma wf_chans_update:
  assumes wf: "wf_world s" and len: "length cs = length (chans s)"
    and cl: "\<forall>r<length cs. closed (cs ! r) = closed (chans s ! r) \<and> cap (cs ! r) = 16 \<and> length (buf (cs ! r)) \<le> 16"
  shows "wf_world (s\<lparr>chans := cs\<rparr>)"
proof -
  have a: "\<forall>ch\<in>set cs. cap ch = 16 \<and> length (buf ch) \<le> 16"
    using cl by (auto simp: in_set_conv_nth)
  have b: "\<forall>c\<in>members s. \<not> closed (cs ! send (client_heap s ! c))"
    using wf_member[OF wf] wf_heap_chan(1)[OF wf] cl len by auto
  have c: "\<And>g. goroutine_ok (s\<lparr>chans := cs\<rparr>) g = goroutine_ok s g"
    subgoal for g by (cases g) (simp_all add: members_def) done
  show ?thesis
    using wf a b len unfolding wf_world_def by (simp add: members_def c)
qed

lemma wf_broadcast:
  assumes wf: "wf_world s" and b: "broadcast s sender msg = (p, s')"
  shows "p = None \<and> wf_world s'"
proof -
  obtain cs where cs: "broadcast s sender msg = (None, s\<lparr>chans := cs\<rparr>)" "length cs = length (chans s)"
     "\<forall>r<length cs. cs ! r =
          (if (\<exists>c\<in>members s. c \<noteq> sender \<and> send (client_heap s ! c) = r)
               \<and> length (buf (chans s ! r)) < 16
           then (chans s ! r)\<lparr>buf := buf (chans s ! r) @ [msg]\<rparr> else chans s ! r)"
    using broadcast_spec[OF wf, of sender msg] by blast
  have "\<forall>r<length cs. closed (cs ! r) = closed (chans s ! r) \<and> cap (cs ! r) = 16 \<and> length (buf (cs ! r)) \<le> 16"
    using cs(2,3) wf_chan_bound[OF wf] by auto
  then have "wf_world (s\<lparr>chans := cs\<rparr>)" using wf_chans_update[OF wf cs(2)] by blast
  then show ?thesis using cs(1) b by simp
qed

lemma wf_NewServer: "wf_world NewServer"
  by (simp add: wf_world_def NewServer_def members_def maxClients_def)

lemma goroutine_ok_mono:
  assumes "goroutine_ok s g" "members s \<subseteq> members s'" "length (client_heap s) \<le> length (client_heap s')"
  shows "goroutine_ok s' g"
  using assms by (cases g) auto

lemma wf_alloc: assumes wf: "wf_world s" shows "wf_world (alloc_client s)"
proof -
  have m: "members (alloc_client s) = members s" by (simp add: members_def alloc_client_def)
  have g: "\<forall>g\<in>set (goroutines s). goroutine_ok (alloc_client s) g"
    using wf goroutine_ok_mono[of s _ "alloc_client s"] m
    unfolding wf_world_def by (auto simp: alloc_client_def)
  have h: "\<forall>cl\<in>set (client_heap s). send cl < length (chans s) \<and> conn cl < next_conn s"
    using wf unfolding wf_world_def by simp
  have d1: "distinct (map send (client_heap (alloc_client s)))"
    using wf h unfolding wf_world_def by (auto simp: alloc_client_def)
  have d2: "distinct (map conn (client_heap (alloc_client s)))"
    using wf h unfolding wf_world_def by (auto simp: alloc_client_def)
  have c: "\<forall>c\<in>members s. c < length (client_heap s) \<and> Reader c \<in> set (goroutines s) \<and>
        \<not> closed (chans s ! send (client_heap s ! c)) \<and> send (client_heap s ! c) < length (chans s)"
    using wf_member[OF wf] wf_heap_chan(1)[OF wf] by blast
  have c': "\<forall>c\<in>members (alloc_client s). c < length (client_heap (alloc_client s)) \<and>
        Reader c \<in> set (goroutines (alloc_client s)) \<and>
        \<not> closed (chans (alloc_client s) ! send (client_heap (alloc_client s) ! c))"
    using c unfolding m by (auto simp: alloc_client_def nth_append)
  have h': "\<forall>cl\<in>set (client_heap (alloc_client s)).
       send cl < length (chans (alloc_client s)) \<and> conn cl < next_conn (alloc_client s)"
    using h by (auto simp: alloc_client_def)
  have b: "\<forall>ch\<in>set (chans (alloc_client s)). cap ch = 16 \<and> length (buf ch) \<le> 16"
    using wf unfolding wf_world_def by (auto simp: alloc_client_def)
  have k: "distinct (map fst (clients (alloc_client s)))" "length (clients (alloc_client s)) \<le> maxClients"
    using wf unfolding wf_world_def by (auto simp: alloc_client_def)
  have g': "\<forall>g\<in>set (goroutines (alloc_client s)). goroutine_ok (alloc_client s) g"
    using g by (simp add: alloc_client_def)
  show ?thesis unfolding wf_world_def using k c' g' h' d1 d2 b by blast
qed

lemma handleWS_alloc:
  "handleWS s True =
     (let s3 = alloc_client s; c = length (client_heap s) in
      if length (clients s) \<ge> maxClients
      then s3\<lparr>trace := trace s @
             [ConnWrite (next_conn s) TextMessage ''room full (2 clients max)'', ConnClose (next_conn s)]\<rparr>
      else s3\<lparr>clients := AList.update c True (clients s),
              trace := trace s @ [LogPrintln ''client connected, total:'' (length (AList.update c True (clients s)))],
              goroutines := goroutines s @ [Writer c, Reader c]\<rparr>)"
  by (simp add: handleWS_def alloc_client_def add_def Let_def)

lemma wf_trace: "wf_world (s\<lparr>trace := t\<rparr>) = wf_world s"
proof -
  have "\<And>g. goroutine_ok (s\<lparr>trace := t\<rparr>) g = goroutine_ok s g"
    subgoal for g by (cases g) (simp_all add: members_def) done
  then show ?thesis unfolding wf_world_def by (simp add: members_def)
qed

lemma wf_admit:
  assumes wf: "wf_world s" and c: "c = length (client_heap s) - 1" "client_heap s \<noteq> []"
    and op: "\<not> closed (chans s ! send (client_heap s ! c))"
    and room: "length (clients s) < maxClients"
  shows "wf_world (s\<lparr>clients := AList.update c True (clients s),
              goroutines := goroutines s @ [Writer c, Reader c]\<rparr>)"
    (is "wf_world ?s'")
proof -
  have m: "members ?s' = insert c (members s)" by (simp add: members_def keys_update)
  have lt: "c < length (client_heap s)" using c by (cases "client_heap s") auto
  have g: "\<forall>g\<in>set (goroutines s). goroutine_ok ?s' g"
    using wf goroutine_ok_mono[of s _ ?s'] m
    unfolding wf_world_def by auto
  have g': "\<forall>g\<in>set (goroutines ?s'). goroutine_ok ?s' g"
    using g m lt by simp
  have k: "distinct (map fst (clients ?s'))"
    using wf unfolding wf_world_def by (simp add: distinct_update)
  have "length (AList.update c True (clients s)) \<le> Suc (length (clients s))"
    by (rule length_alist_update)
  then have l: "length (clients ?s') \<le> maxClients" using room by simp
  have c': "\<forall>x\<in>members ?s'. x < length (client_heap ?s') \<and>
        Reader x \<in> set (goroutines ?s') \<and>
        \<not> closed (chans ?s' ! send (client_heap ?s' ! x))"
    unfolding m using wf_member[OF wf] lt op by auto
  have r: "\<forall>cl\<in>set (client_heap ?s'). send cl < length (chans ?s') \<and> conn cl < next_conn ?s'"
    "distinct (map send (client_heap ?s'))" "distinct (map conn (client_heap ?s'))"
    "\<forall>ch\<in>set (chans ?s'). cap ch = 16 \<and> length (buf ch) \<le> 16"
    using wf unfolding wf_world_def by simp_all
  show ?thesis unfolding wf_world_def using k l c' g' r by blast
qed

lemma wf_handleWS: assumes wf: "wf_world s" shows "wf_world (handleWS s ok)"
proof (cases ok)
  case False
  then show ?thesis using wf by (simp add: handleWS_def)
next
  case True
  let ?a = "alloc_client s"
  let ?c = "length (client_heap s)"
  have wa: "wf_world ?a" using wf by (rule wf_alloc)
  have f: "clients ?a = clients s" "trace ?a = trace s" "goroutines ?a = goroutines s"
    "length (client_heap ?a) - 1 = ?c" "client_heap ?a \<noteq> []"
    "\<not> closed (chans ?a ! send (client_heap ?a ! ?c))"
    by (simp_all add: alloc_client_def)
  show ?thesis
  proof (cases "length (clients s) \<ge> maxClients")
    case full: True
    then show ?thesis using True wa by (simp add: handleWS_alloc Let_def wf_trace)
  next
    case room: False
    have "wf_world (?a\<lparr>clients := AList.update ?c True (clients ?a),
              goroutines := goroutines ?a @ [Writer ?c, Reader ?c]\<rparr>)"
      using wf_admit[OF wa, of ?c] f room by simp
    then have "wf_world (?a\<lparr>clients := AList.update ?c True (clients ?a),
              goroutines := goroutines ?a @ [Writer ?c, Reader ?c],
              trace := trace s @ [LogPrintln ''client connected, total:'' (length (AList.update ?c True (clients s)))]\<rparr>)"
      by (simp only: wf_trace)
    moreover have "handleWS s ok = ?a\<lparr>clients := AList.update ?c True (clients ?a),
              goroutines := goroutines ?a @ [Writer ?c, Reader ?c],
              trace := trace s @ [LogPrintln ''client connected, total:'' (length (AList.update ?c True (clients s)))]\<rparr>"
      using True room f(1-3) by (cases "alloc_client s") (simp add: handleWS_alloc Let_def)
    ultimately show ?thesis by simp
  qed
qed

lemma wf_exit_writer:
  assumes wf: "wf_world s" shows "wf_world (exit_goroutine (Writer c) s)"
proof -
  have "\<And>g. goroutine_ok (exit_goroutine (Writer c) s) g = goroutine_ok s g"
    subgoal for g by (cases g) (simp_all add: members_def exit_goroutine_def) done
  then show ?thesis using wf unfolding wf_world_def
    by (simp add: members_def exit_goroutine_def)
qed

lemma writer_step_spec:
  assumes wf: "wf_world s" and run: "Writer c \<in> set (goroutines s)"
  shows "writer_step s c ok =
    (None,
     case pending s c of
       [] \<Rightarrow> if closed (chans s ! send (client_heap s ! c)) then exit_goroutine (Writer c) s else s
     | m # rest \<Rightarrow>
        (let s2 = s\<lparr>chans := (chans s)[send (client_heap s ! c) := (chans s ! send (client_heap s ! c))\<lparr>buf := rest\<rparr>],
                    trace := trace s @ [ConnWrite (conn (client_heap s ! c)) TextMessage m]\<rparr>
         in if ok then s2 else exit_goroutine (Writer c) s2))"
proof -
  have "goroutine_ok s (Writer c)" using wf run unfolding wf_world_def by blast
  then have c: "c < length (client_heap s)" by simp
  then have r: "send (client_heap s ! c) < length (chans s)" using wf_heap_chan(1)[OF wf] by simp
  show ?thesis using run c r
    by (simp add: writer_step_def deref_def pending_def Let_def split: list.splits)
qed

lemma wf_writer_step:
  assumes wf: "wf_world s" and st: "writer_step s c ok = (p, s')"
  shows "p = None \<and> wf_world s'"
proof (cases "Writer c \<in> set (goroutines s)")
  case False
  then show ?thesis using wf st by (simp add: writer_step_def)
next
  case True
  have "goroutine_ok s (Writer c)" using wf True unfolding wf_world_def by blast
  then have c: "c < length (client_heap s)" by simp
  then have r: "send (client_heap s ! c) < length (chans s)" using wf_heap_chan(1)[OF wf] by simp
  show ?thesis
  proof (cases "pending s c")
    case Nil
    then show ?thesis using st wf wf_exit_writer[OF wf, of c]
      by (auto simp: writer_step_spec[OF wf True] split: if_splits)
  next
    case (Cons m rest)
    let ?r = "send (client_heap s ! c)"
    let ?cs = "(chans s)[?r := (chans s ! ?r)\<lparr>buf := rest\<rparr>]"
    have "length (buf (chans s ! ?r)) \<le> 16" using wf_chan_bound(2)[OF wf r] .
    then have "length rest \<le> 16" using Cons by (simp add: pending_def)
    then have "\<forall>r<length ?cs. closed (?cs ! r) = closed (chans s ! r) \<and> cap (?cs ! r) = 16 \<and> length (buf (?cs ! r)) \<le> 16"
      using wf_chan_bound[OF wf] r by (simp add: nth_list_update)
    then have "wf_world (s\<lparr>chans := ?cs\<rparr>)" using wf_chans_update[OF wf, of ?cs] by simp
    then have w2: "wf_world (s\<lparr>chans := ?cs, trace := trace s @ [ConnWrite (conn (client_heap s ! c)) TextMessage m]\<rparr>)"
      by (simp only: wf_trace)
    show ?thesis using st Cons w2 wf_exit_writer[OF w2, of c]
      by (auto simp: writer_step_spec[OF wf True] Let_def split: if_splits)
  qed
qed

lemma wf_reader:
  assumes wf: "wf_world s" and run: "Reader c \<in> set (goroutines s)"
  shows "c \<in> members s" "c < length (client_heap s)"
    "send (client_heap s ! c) < length (chans s)"
    "\<not> closed (chans s ! send (client_heap s ! c))"
proof -
  have "goroutine_ok s (Reader c)" using wf run unfolding wf_world_def by blast
  then show m: "c \<in> members s" by simp
  show c: "c < length (client_heap s)" using wf_member(1)[OF wf m] .
  show "send (client_heap s ! c) < length (chans s)" using wf_heap_chan(1)[OF wf c] .
  show "\<not> closed (chans s ! send (client_heap s ! c))" using wf_member(3)[OF wf m] .
qed

lemma remove_client_spec:
  assumes c: "c < length (client_heap s)" and r: "send (client_heap s ! c) < length (chans s)"
    and op: "\<not> closed (chans s ! send (client_heap s ! c))"
  shows "remove_client s c =
    (None, s\<lparr>clients := AList.delete c (clients s),
       chans := (chans s)[send (client_heap s ! c) := (chans s ! send (client_heap s ! c))\<lparr>closed := True\<rparr>],
       trace := trace s @ [LogPrintln ''client disconnected, total:'' (length (AList.delete c (clients s)))]\<rparr>)"
  using assms by (simp add: remove_client_def deref_def Let_def)

lemma reader_error_spec:
  assumes wf: "wf_world s" and run: "Reader c \<in> set (goroutines s)"
  shows "reader_step s c None =
    (None, s\<lparr>clients := AList.delete c (clients s),
       chans := (chans s)[send (client_heap s ! c) := (chans s ! send (client_heap s ! c))\<lparr>closed := True\<rparr>],
       goroutines := removeAll (Reader c) (goroutines s),
       trace := trace s @ [LogPrintln ''client disconnected, total:'' (length (AList.delete c (clients s))),
                           ConnClose (conn (client_heap s ! c))]\<rparr>)"
  using wf_reader[OF wf run] run
  by (simp add: reader_step_def reader_deferred_def remove_client_spec deref_def exit_goroutine_def)

lemma wf_reader_error:
  assumes wf: "wf_world s" and run: "Reader c \<in> set (goroutines s)"
  shows "wf_world (s\<lparr>clients := AList.delete c (clients s),
       chans := (chans s)[send (client_heap s ! c) := (chans s ! send (client_heap s ! c))\<lparr>closed := True\<rparr>],
       goroutines := removeAll (Reader c) (goroutines s)\<rparr>)" (is "wf_world ?s'")
proof -
  note rc = wf_reader[OF wf run]
  let ?r = "send (client_heap s ! c)"
  have m: "members ?s' = members s - {c}" by (simp add: members_def keys_delete)
  have k: "distinct (map fst (clients ?s'))"
    using wf unfolding wf_world_def by (simp add: distinct_delete)
  have l: "length (clients ?s') \<le> maxClients"
    using wf length_alist_delete[of c "clients s"] unfolding wf_world_def by simp
  have c': "\<forall>x\<in>members ?s'. x < length (client_heap ?s') \<and>
        Reader x \<in> set (goroutines ?s') \<and>
        \<not> closed (chans ?s' ! send (client_heap ?s' ! x))"
  proof
    fix x assume "x \<in> members ?s'"
    then have x: "x \<in> members s" "x \<noteq> c" unfolding m by auto
    note wx = wf_member[OF wf x(1)]
    have "send (client_heap s ! x) \<noteq> ?r" using wf_send_inj[OF wf wx(1) rc(2)] x(2) by blast
    then show "x < length (client_heap ?s') \<and>
        Reader x \<in> set (goroutines ?s') \<and>
        \<not> closed (chans ?s' ! send (client_heap ?s' ! x))"
      using wx x(2) by simp
  qed
  have g': "\<forall>g\<in>set (goroutines ?s'). goroutine_ok ?s' g"
  proof
    fix g assume "g \<in> set (goroutines ?s')"
    then have g: "g \<in> set (goroutines s)" "g \<noteq> Reader c" by auto
    then have "goroutine_ok s g" using wf unfolding wf_world_def by blast
    then show "goroutine_ok ?s' g" using g(2) m by (cases g) auto
  qed
  have h: "\<forall>cl\<in>set (client_heap ?s'). send cl < length (chans ?s') \<and> conn cl < next_conn ?s'"
    "distinct (map send (client_heap ?s'))" "distinct (map conn (client_heap ?s'))"
    using wf unfolding wf_world_def by simp_all
  have "\<forall>r<length (chans ?s'). cap (chans ?s' ! r) = 16 \<and> length (buf (chans ?s' ! r)) \<le> 16"
    using wf_chan_bound[OF wf] rc(3) by (simp add: nth_list_update)
  then have b: "\<forall>ch\<in>set (chans ?s'). cap ch = 16 \<and> length (buf ch) \<le> 16"
    by (auto simp: in_set_conv_nth simp del: length_list_update nth_list_update_eq)
  show ?thesis unfolding wf_world_def using k l c' g' h b by blast
qed

lemma wf_reader_step:
  assumes wf: "wf_world s" and st: "reader_step s c rd = (p, s')"
  shows "p = None \<and> wf_world s'"
proof (cases "Reader c \<in> set (goroutines s)")
  case False
  then show ?thesis using wf st by (simp add: reader_step_def)
next
  case True
  note rc = wf_reader[OF wf True]
  show ?thesis
  proof (cases rd)
    case None
    let ?x = "s\<lparr>clients := AList.delete c (clients s),
       chans := (chans s)[send (client_heap s ! c) := (chans s ! send (client_heap s ! c))\<lparr>closed := True\<rparr>],
       goroutines := removeAll (Reader c) (goroutines s)\<rparr>"
    let ?t = "trace s @ [LogPrintln ''client disconnected, total:'' (length (AList.delete c (clients s))),
                           ConnClose (conn (client_heap s ! c))]"
    have "(p, s') = (None, ?x\<lparr>trace := ?t\<rparr>)"
      using st reader_error_spec[OF wf True] None by simp
    then have "p = None" "s' = ?x\<lparr>trace := ?t\<rparr>" by blast+
    moreover have "wf_world (?x\<lparr>trace := ?t\<rparr>)"
      using wf_reader_error[OF wf True] by (simp only: wf_trace)
    ultimately show ?thesis by blast
  next
    case (Some msg)
    obtain q s1 where b: "broadcast s c msg = (q, s1)" by (cases "broadcast s c msg")
    have q: "q = None" "wf_world s1" using wf_broadcast[OF wf b] by blast+
    have "reader_step s c (Some msg) = (None, s1)"
      using b True rc(2) unfolding q(1) by (simp add: reader_step_def deref_def)
    then have "p = None" "s' = s1" using st Some by simp_all
    then show ?thesis using q(2) by simp
  qed
qed

lemma wf_step:
  assumes "wf_world s" "step s e = (p, s')"
  shows "p = None \<and> wf_world s'"
proof (cases e)
  case (Connect ok)
  then show ?thesis using assms wf_handleWS[of s ok] by auto
next
  case (ReaderIter c rd)
  then show ?thesis using assms wf_reader_step[of s c rd p s'] by simp
next
  case (WriterIter c ok)
  then show ?thesis using assms wf_writer_step[of s c ok p s'] by simp
qed

lemma wf_run:
  assumes "wf_world s" "run s evs = (p, s')"
  shows "p = None \<and> wf_world s'"
  using assms
proof (induction evs arbitrary: s)
  case Nil
  then show ?case by simp
next
  case (Cons e es)
  obtain q s1 where st: "step s e = (q, s1)" by (cases "step s e")
  have q: "q = None" "wf_world s1" using wf_step[OF Cons.prems(1) st] by blast+
  have "run s1 es = (p, s')" using Cons.prems(2) st unfolding q(1) by simp
  then show ?case using Cons.IH[OF q(2)] by blast
qed

text \<open>Every state the server reaches from its start is well-formed, and no run panics.\<close>

lemma reachable_wf:
  assumes "run NewServer evs = (p, s)"
  shows "p = None \<and> wf_world s"
  using wf_run[OF wf_NewServer assms] .

lemma reachable_members_bound:
  assumes "run NewServer evs = (p, s)"
  shows "card (members s) \<le> maxClients"
proof -
  have "wf_world s" using reachable_wf[OF assms] by blast
  then have "distinct (map fst (clients s))" "length (clients s) \<le> maxClients"
    unfolding wf_world_def by blast+
  then show ?thesis using card_members[of s] by simp
qed

lemma writes_on_append: "writes_on cn (xs @ ys) = writes_on cn xs @ writes_on cn ys"
  by (induction cn xs rule: writes_on.induct) auto

lemma broadcast_at:
  assumes "wf_world s" "b < length (client_heap s)"
  shows "\<exists>cs. broadcast s sender msg = (None, s\<lparr>chans := cs\<rparr>)
    \<and> cs ! send (client_heap s ! b) =
        (if b \<in> members s \<and> b \<noteq> sender \<and> length (pending s b) < 16
         then (chans s ! send (client_heap s ! b))\<lparr>buf := pending s b @ [msg]\<rparr>
         else chans s ! send (client_heap s ! b))"
proof -
  let ?r = "send (client_heap s ! b)"
  obtain cs where cs: "broadcast s sender msg = (None, s\<lparr>chans := cs\<rparr>)"
     "length cs = length (chans s)"
     "\<forall>r<length cs. cs ! r =
          (if (\<exists>c\<in>members s. c \<noteq> sender \<and> send (client_heap s ! c) = r)
               \<and> length (buf (chans s ! r)) < 16
           then (chans s ! r)\<lparr>buf := buf (chans s ! r) @ [msg]\<rparr> else chans s ! r)"
    using broadcast_spec[OF assms(1), of sender msg] by blast
  have r: "?r < length cs" using wf_heap_chan(1)[OF assms] cs(2) by simp
  have "(\<exists>c\<in>members s. c \<noteq> sender \<and> send (client_heap s ! c) = ?r)
      \<longleftrightarrow> (b \<in> members s \<and> b \<noteq> sender)"
  proof
    assume "\<exists>c\<in>members s. c \<noteq> sender \<and> send (client_heap s ! c) = ?r"
    then obtain c where c: "c \<in> members s" "c \<noteq> sender" "send (client_heap s ! c) = ?r" by blast
    have "c = b" using wf_send_inj[OF assms(1) wf_member(1)[OF assms(1) c(1)] assms(2) c(3)] .
    then show "b \<in> members s \<and> b \<noteq> sender" using c by simp
  next
    assume "b \<in> members s \<and> b \<noteq> sender"
    then show "\<exists>c\<in>members s. c \<noteq> sender \<and> send (client_heap s ! c) = ?r" by blast
  qed
  then have "cs ! ?r =
        (if b \<in> members s \<and> b \<noteq> sender \<and> length (pending s b) < 16
         then (chans s ! ?r)\<lparr>buf := pending s b @ [msg]\<rparr>
         else chans s ! ?r)"
    using cs(3) r by (simp add: pending_def)
  then show ?thesis using cs(1) by blast
qed

lemma received_connect:
  assumes wf: "wf_world s" and b: "b < length (client_heap s)"
  shows "received (handleWS s ok) b = received s b"
proof (cases ok)
  case False
  then show ?thesis by (simp add: handleWS_def)
next
  case True
  note hc = wf_heap_chan[OF wf b]
  have cn: "conn (client_heap s ! b) \<noteq> next_conn s" using hc(2) by simp
  show ?thesis using True b hc(1) cn
    by (simp add: handleWS_alloc Let_def alloc_client_def received_def delivered_def pending_def
        nth_append writes_on_append)
qed

lemma received_reader_error:
  assumes wf: "wf_world s" and b: "b < length (client_heap s)"
  shows "received (snd (reader_step s c None)) b = received s b"
proof (cases "Reader c \<in> set (goroutines s)")
  case False
  then show ?thesis by (simp add: reader_step_def)
next
  case True
  note rc = wf_reader[OF wf True]
  have "buf ((chans s)[send (client_heap s ! c) := (chans s ! send (client_heap s ! c))\<lparr>closed := True\<rparr>]
      ! send (client_heap s ! b)) = buf (chans s ! send (client_heap s ! b))"
    using rc(3) by (cases "send (client_heap s ! c) = send (client_heap s ! b)") simp_all
  then show ?thesis unfolding reader_error_spec[OF wf True]
    by (simp add: received_def delivered_def pending_def writes_on_append)
qed

lemma received_reader_msg:
  assumes wf: "wf_world s" and b: "b < length (client_heap s)"
  shows "received (snd (reader_step s c (Some m))) b =
     received s b @ (if Reader c \<in> set (goroutines s) \<and> b \<in> members s \<and> b \<noteq> c
          \<and> length (pending s b) < 16 then [m] else [])"
proof (cases "Reader c \<in> set (goroutines s)")
  case False
  then show ?thesis by (simp add: reader_step_def)
next
  case True
  note rc = wf_reader[OF wf True]
  obtain cs where cs: "broadcast s c m = (None, s\<lparr>chans := cs\<rparr>)"
    "cs ! send (client_heap s ! b) =
        (if b \<in> members s \<and> b \<noteq> c \<and> length (pending s b) < 16
         then (chans s ! send (client_heap s ! b))\<lparr>buf := pending s b @ [m]\<rparr>
         else chans s ! send (client_heap s ! b))"
    using broadcast_at[OF wf b, of c m] by blast
  have "reader_step s c (Some m) = (None, s\<lparr>chans := cs\<rparr>)"
    using True rc(2) cs(1) by (simp add: reader_step_def deref_def)
  then show ?thesis using cs(2) True
    by (simp add: received_def delivered_def pending_def)
qed

lemma received_writer:
  assumes wf: "wf_world s" and b: "b < length (client_heap s)"
  shows "received (snd (writer_step s c ok)) b = received s b"
proof (cases "Writer c \<in> set (goroutines s)")
  case False
  then show ?thesis by (simp add: writer_step_def)
next
  case True
  have "goroutine_ok s (Writer c)" using wf True unfolding wf_world_def by blast
  then have c: "c < length (client_heap s)" by simp
  note hc = wf_heap_chan[OF wf c]
  show ?thesis
  proof (cases "pending s c")
    case Nil
    then show ?thesis unfolding writer_step_spec[OF wf True]
      by (simp add: received_def delivered_def pending_def exit_goroutine_def)
  next
    case (Cons m rest)
    show ?thesis
    proof (cases "c = b")
      case same: True
      show ?thesis unfolding writer_step_spec[OF wf True] using Cons same hc(1)
        by (simp add: received_def delivered_def pending_def exit_goroutine_def Let_def writes_on_append)
    next
      case diff: False
      have "send (client_heap s ! c) \<noteq> send (client_heap s ! b)"
        using wf_send_inj[OF wf c b] diff by blast
      moreover have "conn (client_heap s ! c) \<noteq> conn (client_heap s ! b)"
        using wf_conn_inj[OF wf c b] diff by blast
      ultimately show ?thesis unfolding writer_step_spec[OF wf True] using Cons
        by (simp add: received_def delivered_def pending_def exit_goroutine_def Let_def writes_on_append)
    qed
  qed
qed

lemma received_step:
  assumes wf: "wf_world s" and b: "b < length (client_heap s)"
  shows "\<exists>xs. subseq xs (offered b [e]) \<and> received (snd (step s e)) b = received s b @ xs"
proof (cases e)
  case (Connect ok)
  then show ?thesis using received_connect[OF wf b] by simp
next
  case (ReaderIter c rd)
  show ?thesis
  proof (cases rd)
    case None
    then show ?thesis using ReaderIter received_reader_error[OF wf b] by simp
  next
    case (Some m)
    then show ?thesis using ReaderIter received_reader_msg[OF wf b, of c m] by auto
  qed
next
  case (WriterIter c ok)
  then show ?thesis using received_writer[OF wf b] by simp
qed

lemma heap_mono_step:
  assumes wf: "wf_world s" and b: "b < length (client_heap s)"
  shows "b < length (client_heap (snd (step s e)))"
proof (cases e)
  case (Connect ok)
  show ?thesis
  proof (cases ok)
    case True
    then show ?thesis using Connect b by (simp add: handleWS_alloc Let_def alloc_client_def)
  next
    case False
    then show ?thesis using Connect b by (simp add: handleWS_def)
  qed
next
  case (ReaderIter c rd)
  show ?thesis
  proof (cases "Reader c \<in> set (goroutines s)")
    case False
    then show ?thesis using ReaderIter b by (simp add: reader_step_def)
  next
    case True
    note rc = wf_reader[OF wf True]
    show ?thesis
    proof (cases rd)
      case None
      then show ?thesis using ReaderIter b reader_error_spec[OF wf True] by simp
    next
      case (Some m)
      obtain cs where cs: "broadcast s c m = (None, s\<lparr>chans := cs\<rparr>)"
        using broadcast_spec[OF wf, of c m] by blast
      have "reader_step s c (Some m) = (None, s\<lparr>chans := cs\<rparr>)"
        using True rc(2) cs(1) by (simp add: reader_step_def deref_def)
      then show ?thesis using ReaderIter Some b by simp
    qed
  qed
next
  case (WriterIter c ok)
  show ?thesis
  proof (cases "Writer c \<in> set (goroutines s)")
    case False
    then show ?thesis using WriterIter b by (simp add: writer_step_def)
  next
    case True
    show ?thesis using WriterIter b
      by (simp add: writer_step_spec[OF wf True] exit_goroutine_def Let_def split: list.splits)
  qed
qed

lemma offered_Cons: "offered b (e # es) = offered b [e] @ offered b es"
  by (induction b "e # es" rule: offered.induct) auto

lemma received_run:
  assumes "wf_world s" "b < length (client_heap s)"
  shows "\<exists>xs. subseq xs (offered b evs) \<and> received (snd (run s evs)) b = received s b @ xs"
  using assms
proof (induction evs arbitrary: s)
  case Nil
  show ?case by (rule exI[of _ "[]"]) simp
next
  case (Cons e es)
  obtain q s1 where st: "step s e = (q, s1)" by (cases "step s e")
  have q: "q = None" "wf_world s1" using wf_step[OF Cons.prems(1) st] by blast+
  have b1: "b < length (client_heap s1)" using heap_mono_step[OF Cons.prems, of e] st by simp
  obtain xs where xs: "subseq xs (offered b [e])" "received s1 b = received s b @ xs"
    using received_step[OF Cons.prems, of e] st by auto
  obtain ys where ys: "subseq ys (offered b es)" "received (snd (run s1 es)) b = received s1 b @ ys"
    using Cons.IH[OF q(2) b1] by blast
  have r: "run s (e # es) = run s1 es" using st q(1) by simp
  have "subseq (xs @ ys) (offered b (e # es))"
    using xs(1) ys(1) offered_Cons[of b e es] by (simp add: list_emb_append_mono del: offered.simps)
  moreover have "received (snd (run s (e # es))) b = received s b @ (xs @ ys)"
    unfolding r using xs(2) ys(2) by simp
  ultimately show ?case by blast
qed

lemma offered_sent_by:
  assumes "\<forall>e\<in>set evs. reads_of e \<in> {None, Some a, Some b}"
  shows "subseq (offered b evs) (sent_by a evs)"
  using assms
proof (induction evs)
  case Nil
  show ?case by simp
next
  case (Cons e es)
  have ih: "subseq (offered b es) (sent_by a es)" using Cons by simp
  have e: "reads_of e \<in> {None, Some a, Some b}" using Cons.prems by simp
  show ?case
  proof (cases e)
    case (Connect ok)
    then show ?thesis using ih by simp
  next
    case (WriterIter c ok)
    then show ?thesis using ih by simp
  next
    case (ReaderIter c rd)
    show ?thesis
    proof (cases rd)
      case None
      then show ?thesis using ReaderIter ih by simp
    next
      case (Some m)
      then have "c = a \<or> c = b" using e ReaderIter by simp
      then show ?thesis using ReaderIter Some ih by auto
    qed
  qed
qed

subsection \<open>The claims\<close>

text \<open>
  C10. The origin check of the upgrader accepts every request, whatever its Origin header.
\<close>

theorem check_origin_accepts_all: "CheckOrigin upgrader r"
  by (simp add: upgrader_def)

text \<open>
  C7. \<open>add\<close> returns true exactly when the registry has fewer than two members, and then
  the session is a member afterwards; otherwise it returns false and the whole state is
  unchanged.
\<close>

theorem add_admits_below_capacity:
  assumes "distinct (map fst (clients s))"
  shows "fst (add s c) = (card (members s) < 2)
    \<and> (card (members s) < 2 \<longrightarrow> members (snd (add s c)) = insert c (members s))
    \<and> (\<not> card (members s) < 2 \<longrightarrow> snd (add s c) = s)"
  using assms card_members[OF assms]
  by (auto simp: add_def Let_def maxClients_def members_def keys_update)

theorem add_admits_below_capacity_witness:
  "fst (add (snd (run NewServer [Connect True])) 5)
   \<and> members (snd (add (snd (run NewServer [Connect True])) 5)) = {0, 5}
   \<and> \<not> fst (add (snd (run NewServer [Connect True, Connect True])) 5)
   \<and> snd (add (snd (run NewServer [Connect True, Connect True])) 5)
       = snd (run NewServer [Connect True, Connect True])"
proof -
  let ?s1 = "snd (run NewServer [Connect True])"
  let ?s2 = "snd (run NewServer [Connect True, Connect True])"
  have d: "distinct (map fst (clients ?s1))" "distinct (map fst (clients ?s2))" by code_simp+
  have m: "members ?s1 = {0}" "members ?s2 = {0, 1}"
    by (simp_all add: NewServer_def handleWS_def add_def maxClients_def Let_def members_def)
  show ?thesis
    using add_admits_below_capacity[OF d(1), of 5] add_admits_below_capacity[OF d(2), of 5]
    unfolding m by auto
qed

text \<open>
  C2. Whatever sequence of \<open>add\<close> and \<open>remove\<close> operations is applied to a registry with at
  most two members, the registry has at most two members afterwards.
\<close>

theorem registry_never_exceeds_two:
  assumes "distinct (map fst (clients s))" "card (members s) \<le> 2"
  shows "card (members (apply_ops s ops)) \<le> 2
    \<and> (card (members s) = 2 \<longrightarrow> add s c = (False, s))"
proof -
  have "length (clients s) \<le> maxClients"
    using assms card_members[OF assms(1)] by (simp add: maxClients_def)
  then have "distinct (map fst (clients (apply_ops s ops))) \<and>
     length (clients (apply_ops s ops)) \<le> maxClients"
    using apply_ops_inv[OF assms(1)] by blast
  then have "card (members (apply_ops s ops)) \<le> 2"
    using card_members[of "apply_ops s ops"] by (simp add: maxClients_def)
  moreover have "card (members s) = 2 \<longrightarrow> add s c = (False, s)"
    using card_members[OF assms(1)] by (simp add: add_def maxClients_def)
  ultimately show ?thesis by blast
qed

theorem registry_never_exceeds_two_witness:
  "card (members (apply_ops (snd (run NewServer [Connect True, Connect True]))
      [Add 5, Remove 0, Add 6, Add 7, Remove 1, Remove 1])) \<le> 2
   \<and> add (snd (run NewServer [Connect True, Connect True])) 5
       = (False, snd (run NewServer [Connect True, Connect True]))"
proof -
  let ?s2 = "snd (run NewServer [Connect True, Connect True])"
  have d: "distinct (map fst (clients ?s2))" by code_simp
  have m: "card (members ?s2) \<le> 2"
    by (simp add: NewServer_def handleWS_def add_def maxClients_def Let_def members_def)
  have e: "card (members ?s2) = 2"
    by (simp add: NewServer_def handleWS_def add_def maxClients_def Let_def members_def)
  show ?thesis using registry_never_exceeds_two[OF d m, of _ 5] e by blast
qed

text \<open>
  C4 (as stated: a second \<open>remove\<close> of the same session must not panic). After one client
  has connected, removing it twice panics the second time: \<open>remove\<close> closes the channel
  whether or not the session was still registered.
\<close>

theorem remove_twice_counterexample:
  "fst (remove_client (snd (run NewServer [Connect True])) 0) = None
   \<and> fst (remove_client (snd (remove_client (snd (run NewServer [Connect True])) 0)) 0)
       = Some CloseOfClosedChannel"
  by code_simp

text \<open>
  C4 (amended). \<open>remove\<close> is idempotent on the membership set only: it deletes the session
  from the set, which changes nothing when the session is absent, and after a \<open>remove\<close>
  that returned normally a second \<open>remove\<close> of the same session panics on closing the
  closed channel and changes nothing at all.
\<close>

theorem remove_idempotent_on_membership_only:
  "members (snd (remove_client s c)) = members s - {c}
   \<and> (c \<notin> members s \<longrightarrow> clients (snd (remove_client s c)) = clients s)
   \<and> (remove_client s c = (None, s') \<longrightarrow> remove_client s' c = (Some CloseOfClosedChannel, s'))"
proof (intro conjI impI)
  show "members (snd (remove_client s c)) = members s - {c}"
    by (simp add: members_def remove_clients keys_delete)
  show "clients (snd (remove_client s c)) = clients s" if "c \<notin> members s"
    using that by (simp add: remove_clients members_def delete_notin_dom)
  show "remove_client s' c = (Some CloseOfClosedChannel, s')" if r: "remove_client s c = (None, s')"
  proof -
    from r obtain cl ch where h: "deref (client_heap s) c = Some cl"
      "deref (chans s) (send cl) = Some ch" "\<not> closed ch"
      by (auto simp: remove_client_def Let_def split: option.splits if_splits)
    have s': "s' = s\<lparr>clients := AList.delete c (clients s),
       chans := (chans s)[send cl := ch\<lparr>closed := True\<rparr>],
       trace := trace s @ [LogPrintln ''client disconnected, total:'' (length (AList.delete c (clients s)))]\<rparr>"
      using r h by (simp add: remove_client_def Let_def)
    have "s'\<lparr>clients := AList.delete c (clients s')\<rparr> = s'"
      unfolding s' by (simp add: delete_idem)
    moreover have "deref (client_heap s') c = Some cl" using h(1) by (simp add: s')
    moreover have "deref (chans s') (send cl) = Some (ch\<lparr>closed := True\<rparr>)"
      using h(2) by (simp add: s' deref_def split: if_splits)
    ultimately show ?thesis by (simp add: remove_client_def Let_def)
  qed
qed

theorem remove_idempotent_on_membership_only_witness:
  "members (snd (remove_client (snd (run NewServer [Connect True, Connect True])) 0)) = {1}
   \<and> clients (snd (remove_client (snd (run NewServer [Connect True, Connect True])) 7)) = [(0, True), (1, True)]
   \<and> remove_client (snd (remove_client (snd (run NewServer [Connect True, Connect True])) 0)) 0
       = (Some CloseOfClosedChannel, snd (remove_client (snd (run NewServer [Connect True, Connect True])) 0))"
proof -
  let ?s2 = "snd (run NewServer [Connect True, Connect True])"
  have m: "members ?s2 = {0, 1}" "clients ?s2 = [(0, True), (1, True)]"
    by (simp_all add: NewServer_def handleWS_def add_def maxClients_def Let_def members_def)
  have r: "remove_client ?s2 0 = (None, snd (remove_client ?s2 0))"
    by code_simp
  show ?thesis
    using remove_idempotent_on_membership_only[of ?s2 0 "snd (remove_client ?s2 0)"]
      remove_idempotent_on_membership_only[of ?s2 7]
      r m by auto
qed

text \<open>
  C5 (as stated: a rejected connection never creates a session object). With two clients
  admitted, a third connection is rejected, and the heap holds one more \<open>Client\<close> and one
  more channel afterwards.
\<close>

theorem rejected_client_allocated_counterexample:
  "length (clients (snd (run NewServer [Connect True, Connect True]))) = 2
   \<and> length (client_heap (snd (run NewServer [Connect True, Connect True]))) = 2
   \<and> length (chans (snd (run NewServer [Connect True, Connect True]))) = 2
   \<and> client_heap (handleWS (snd (run NewServer [Connect True, Connect True])) True) ! 2
       = \<lparr>conn = 2, send = 2\<rparr>
   \<and> length (client_heap (handleWS (snd (run NewServer [Connect True, Connect True])) True)) = 3
   \<and> length (chans (handleWS (snd (run NewServer [Connect True, Connect True])) True)) = 3"
  by code_simp

text \<open>
  C5 (amended). When the registry is at capacity, \<open>handleWS\<close> on an upgraded connection
  makes the \<open>Client\<close> and its empty channel of capacity 16, then writes exactly one text
  frame with the room-full string on the new connection and closes it; the membership set,
  the running loops, the other channels and the other clients are unchanged, so the
  rejected client is never a member, no reader or writer is started for it, and its queue
  stays empty.
\<close>

theorem rejected_connection:
  assumes "length (clients s) \<ge> maxClients"
  shows "handleWS s True =
      s\<lparr>client_heap := client_heap s @ [\<lparr>conn = next_conn s, send = length (chans s)\<rparr>],
        chans := chans s @ [\<lparr>cap = 16, buf = [], closed = False\<rparr>],
        next_conn := Suc (next_conn s),
        trace := trace s @ [ConnWrite (next_conn s) TextMessage ''room full (2 clients max)'',
                            ConnClose (next_conn s)]\<rparr>
    \<and> clients (handleWS s True) = clients s
    \<and> goroutines (handleWS s True) = goroutines s
    \<and> members (handleWS s True) = members s"
  using assms by (simp add: handleWS_def add_def Let_def members_def)

theorem rejected_connection_witness:
  "handleWS (snd (run NewServer [Connect True, Connect True])) True =
      \<lparr>clients = [(0, True), (1, True)],
       client_heap = [\<lparr>conn = 0, send = 0\<rparr>, \<lparr>conn = 1, send = 1\<rparr>, \<lparr>conn = 2, send = 2\<rparr>],
       chans = [\<lparr>cap = 16, buf = [], closed = False\<rparr>, \<lparr>cap = 16, buf = [], closed = False\<rparr>,
                \<lparr>cap = 16, buf = [], closed = False\<rparr>],
       next_conn = 3,
       goroutines = [Writer 0, Reader 0, Writer 1, Reader 1],
       trace = [LogPrintln ''client connected, total:'' 1, LogPrintln ''client connected, total:'' 2,
                ConnWrite 2 TextMessage ''room full (2 clients max)'', ConnClose 2]\<rparr>"
proof -
  let ?s2 = "snd (run NewServer [Connect True, Connect True])"
  have s2: "?s2 = \<lparr>clients = [(0, True), (1, True)],
    client_heap = [\<lparr>conn = 0, send = 0\<rparr>, \<lparr>conn = 1, send = 1\<rparr>],
    chans = [\<lparr>cap = 16, buf = [], closed = False\<rparr>, \<lparr>cap = 16, buf = [], closed = False\<rparr>],
    next_conn = 2, goroutines = [Writer 0, Reader 0, Writer 1, Reader 1],
    trace = [LogPrintln ''client connected, total:'' 1, LogPrintln ''client connected, total:'' 2]\<rparr>"
    by (simp add: NewServer_def handleWS_def add_def maxClients_def Let_def)
  have l: "length (clients ?s2) \<ge> maxClients" unfolding s2 by (simp add: maxClients_def)
  show ?thesis using rejected_connection[OF l] unfolding s2 by simp
qed

text \<open>
  C6. When the write of a frame fails, the writer of that session takes the frame from the
  queue, attempts the write and exits, and that is all: the membership set is unchanged
  (the session is still registered if it was), the queue is not closed, the connection is
  not closed, and every other loop, the session's own reader among them, keeps running.
\<close>

theorem writer_failure_stops_writer_only:
  assumes "wf_world s" "Writer c \<in> set (goroutines s)" "pending s c = m # rest"
  shows "\<exists>s'. writer_step s c False = (None, s')
    \<and> clients s' = clients s
    \<and> closed (chans s' ! send (client_heap s ! c)) = closed (chans s ! send (client_heap s ! c))
    \<and> pending s' c = rest
    \<and> trace s' = trace s @ [ConnWrite (conn (client_heap s ! c)) TextMessage m]
    \<and> goroutines s' = removeAll (Writer c) (goroutines s)
    \<and> (Reader c \<in> set (goroutines s') \<longleftrightarrow> Reader c \<in> set (goroutines s))"
proof -
  have "goroutine_ok s (Writer c)" using assms(1,2) unfolding wf_world_def by blast
  then have c: "c < length (client_heap s)" by simp
  then have r: "send (client_heap s ! c) < length (chans s)" using wf_heap_chan(1)[OF assms(1)] by simp
  show ?thesis
    using assms(3) r unfolding writer_step_spec[OF assms(1,2)]
    by (simp add: Let_def exit_goroutine_def pending_def)
qed

theorem writer_failure_stops_writer_only_witness:
  "\<exists>s'. writer_step (snd (run NewServer [Connect True, Connect True, ReaderIter 0 (Some ''f1'')])) 1 False
         = (None, s')
    \<and> clients s' = [(0, True), (1, True)]
    \<and> \<not> closed (chans s' ! 1)
    \<and> pending s' 1 = []
    \<and> trace s' = [LogPrintln ''client connected, total:'' 1, LogPrintln ''client connected, total:'' 2,
                   ConnWrite 1 TextMessage ''f1'']
    \<and> goroutines s' = [Writer 0, Reader 0, Reader 1]"
proof -
  let ?s = "snd (run NewServer [Connect True, Connect True, ReaderIter 0 (Some ''f1'')])"
  have s: "?s = \<lparr>clients = [(0, True), (1, True)],
       client_heap = [\<lparr>conn = 0, send = 0\<rparr>, \<lparr>conn = 1, send = 1\<rparr>],
       chans = [\<lparr>cap = 16, buf = [], closed = False\<rparr>, \<lparr>cap = 16, buf = [''f1''], closed = False\<rparr>],
       next_conn = 2,
       goroutines = [Writer 0, Reader 0, Writer 1, Reader 1],
       trace = [LogPrintln ''client connected, total:'' 1, LogPrintln ''client connected, total:'' 2]\<rparr>"
    by code_simp
  have w: "wf_world ?s" unfolding s by code_simp
  have g: "Writer 1 \<in> set (goroutines ?s)" unfolding s by simp
  have p: "pending ?s 1 = ''f1'' # []" unfolding s by (simp add: pending_def)
  show ?thesis
    using writer_failure_stops_writer_only[OF w g p] unfolding s by auto
qed

text \<open>
  C8. A read error in the reader of a registered session makes it leave the loop and run
  its teardown: \<open>remove\<close> (the session leaves the membership set, its queue is closed, the
  log line is printed), then the close of its connection, and the reader is gone. No
  panic arises, and nothing else changes: every other member keeps its open queue with
  the same content and its running reader.
\<close>

theorem reader_error_teardown:
  assumes "wf_world s" "Reader c \<in> set (goroutines s)"
  shows "reader_step s c None =
      (None, s\<lparr>clients := AList.delete c (clients s),
         chans := (chans s)[send (client_heap s ! c) :=
                     (chans s ! send (client_heap s ! c))\<lparr>closed := True\<rparr>],
         goroutines := removeAll (Reader c) (goroutines s),
         trace := trace s @
           [LogPrintln ''client disconnected, total:'' (length (AList.delete c (clients s))),
            ConnClose (conn (client_heap s ! c))]\<rparr>)
    \<and> fst (remove_client s c) = None
    \<and> members (snd (reader_step s c None)) = members s - {c}
    \<and> closed (chans (snd (reader_step s c None)) ! send (client_heap s ! c))
    \<and> (\<forall>c'\<in>members s - {c}.
          chans (snd (reader_step s c None)) ! send (client_heap s ! c')
            = chans s ! send (client_heap s ! c')
          \<and> Reader c' \<in> set (goroutines (snd (reader_step s c None))))"
proof -
  note rc = wf_reader[OF assms]
  note sp = reader_error_spec[OF assms]
  have other: "\<forall>c'\<in>members s - {c}.
          chans (snd (reader_step s c None)) ! send (client_heap s ! c')
            = chans s ! send (client_heap s ! c')
          \<and> Reader c' \<in> set (goroutines (snd (reader_step s c None)))"
  proof
    fix c' assume "c' \<in> members s - {c}"
    then have c': "c' \<in> members s" "c' \<noteq> c" by auto
    note wc = wf_member[OF assms(1) c'(1)]
    have "send (client_heap s ! c') \<noteq> send (client_heap s ! c)"
      using wf_send_inj[OF assms(1) wc(1) rc(2)] c'(2) by blast
    then show "chans (snd (reader_step s c None)) ! send (client_heap s ! c')
            = chans s ! send (client_heap s ! c')
          \<and> Reader c' \<in> set (goroutines (snd (reader_step s c None)))"
      unfolding sp using wc(2) c'(2) by simp
  qed
  have "fst (remove_client s c) = None"
    using remove_client_spec[OF rc(2,3,4)] by simp
  moreover have "members (snd (reader_step s c None)) = members s - {c}"
    unfolding sp by (simp add: members_def keys_delete)
  moreover have "closed (chans (snd (reader_step s c None)) ! send (client_heap s ! c))"
    unfolding sp using rc(3) by simp
  ultimately show ?thesis using sp other by blast
qed

theorem reader_error_teardown_witness:
  "reader_step (snd (run NewServer [Connect True, Connect True, ReaderIter 1 (Some ''f1'')])) 1 None =
     (None,
      \<lparr>clients = [(0, True)],
       client_heap = [\<lparr>conn = 0, send = 0\<rparr>, \<lparr>conn = 1, send = 1\<rparr>],
       chans = [\<lparr>cap = 16, buf = [''f1''], closed = False\<rparr>, \<lparr>cap = 16, buf = [], closed = True\<rparr>],
       next_conn = 2,
       goroutines = [Writer 0, Reader 0, Writer 1],
       trace = [LogPrintln ''client connected, total:'' 1, LogPrintln ''client connected, total:'' 2,
                LogPrintln ''client disconnected, total:'' 1, ConnClose 1]\<rparr>)"
proof -
  let ?s = "snd (run NewServer [Connect True, Connect True, ReaderIter 1 (Some ''f1'')])"
  have s: "?s = \<lparr>clients = [(0, True), (1, True)],
       client_heap = [\<lparr>conn = 0, send = 0\<rparr>, \<lparr>conn = 1, send = 1\<rparr>],
       chans = [\<lparr>cap = 16, buf = [''f1''], closed = False\<rparr>, \<lparr>cap = 16, buf = [], closed = False\<rparr>],
       next_conn = 2,
       goroutines = [Writer 0, Reader 0, Writer 1, Reader 1],
       trace = [LogPrintln ''client connected, total:'' 1, LogPrintln ''client connected, total:'' 2]\<rparr>"
    by code_simp
  have w: "wf_world ?s" unfolding s by code_simp
  have g: "Reader 1 \<in> set (goroutines ?s)" unfolding s by simp
  show ?thesis
    using reader_error_teardown[OF w g] unfolding s by simp
qed

text \<open>
  C1. A broadcast never panics and changes nothing but queues. The queue of an allocated
  session \<open>b\<close> gets the message appended if \<open>b\<close> is a member, is not the sender and has
  fewer than 16 messages waiting; in every other case (not a member, the sender itself, or
  a full queue) the channel of \<open>b\<close> is exactly what it was.
\<close>

theorem broadcast_enqueues_iff:
  assumes "wf_world s" "b < length (client_heap s)"
  shows "\<exists>cs. broadcast s sender msg = (None, s\<lparr>chans := cs\<rparr>)
    \<and> length cs = length (chans s)
    \<and> cs ! send (client_heap s ! b) =
        (if b \<in> members s \<and> b \<noteq> sender \<and> length (pending s b) < 16
         then (chans s ! send (client_heap s ! b))\<lparr>buf := pending s b @ [msg]\<rparr>
         else chans s ! send (client_heap s ! b))"
proof -
  let ?r = "send (client_heap s ! b)"
  obtain cs where cs: "broadcast s sender msg = (None, s\<lparr>chans := cs\<rparr>)"
     "length cs = length (chans s)"
     "\<forall>r<length cs. cs ! r =
          (if (\<exists>c\<in>members s. c \<noteq> sender \<and> send (client_heap s ! c) = r)
               \<and> length (buf (chans s ! r)) < 16
           then (chans s ! r)\<lparr>buf := buf (chans s ! r) @ [msg]\<rparr> else chans s ! r)"
    using broadcast_spec[OF assms(1), of sender msg] by blast
  have r: "?r < length cs" using wf_heap_chan(1)[OF assms] cs(2) by simp
  have "(\<exists>c\<in>members s. c \<noteq> sender \<and> send (client_heap s ! c) = ?r)
      \<longleftrightarrow> (b \<in> members s \<and> b \<noteq> sender)"
  proof
    assume "\<exists>c\<in>members s. c \<noteq> sender \<and> send (client_heap s ! c) = ?r"
    then obtain c where c: "c \<in> members s" "c \<noteq> sender" "send (client_heap s ! c) = ?r" by blast
    have "c = b" using wf_send_inj[OF assms(1) wf_member(1)[OF assms(1) c(1)] assms(2) c(3)] .
    then show "b \<in> members s \<and> b \<noteq> sender" using c by simp
  next
    assume "b \<in> members s \<and> b \<noteq> sender"
    then show "\<exists>c\<in>members s. c \<noteq> sender \<and> send (client_heap s ! c) = ?r" by blast
  qed
  then have "cs ! ?r =
        (if b \<in> members s \<and> b \<noteq> sender \<and> length (pending s b) < 16
         then (chans s ! ?r)\<lparr>buf := pending s b @ [msg]\<rparr>
         else chans s ! ?r)"
    using cs(3) r by (simp add: pending_def)
  then show ?thesis using cs(1,2) by blast
qed

theorem broadcast_enqueues_iff_witness:
  "fst (broadcast (snd (run NewServer [Connect True, Connect True, Connect True])) 0 ''f1'') = None
   \<and> chans (snd (broadcast (snd (run NewServer [Connect True, Connect True, Connect True])) 0 ''f1'')) ! 0
       = \<lparr>cap = 16, buf = [], closed = False\<rparr>
   \<and> chans (snd (broadcast (snd (run NewServer [Connect True, Connect True, Connect True])) 0 ''f1'')) ! 1
       = \<lparr>cap = 16, buf = [''f1''], closed = False\<rparr>
   \<and> chans (snd (broadcast (snd (run NewServer [Connect True, Connect True, Connect True])) 0 ''f1'')) ! 2
       = \<lparr>cap = 16, buf = [], closed = False\<rparr>"
proof -
  let ?s = "snd (run NewServer [Connect True, Connect True, Connect True])"
  have s: "?s = \<lparr>clients = [(0, True), (1, True)],
     client_heap = [\<lparr>conn = 0, send = 0\<rparr>, \<lparr>conn = 1, send = 1\<rparr>, \<lparr>conn = 2, send = 2\<rparr>],
     chans = [\<lparr>cap = 16, buf = [], closed = False\<rparr>, \<lparr>cap = 16, buf = [], closed = False\<rparr>,
        \<lparr>cap = 16, buf = [], closed = False\<rparr>],
     next_conn = 3, goroutines = [Writer 0, Reader 0, Writer 1, Reader 1],
     trace = [LogPrintln ''client connected, total:'' 1, LogPrintln ''client connected, total:'' 2,
        ConnWrite 2 TextMessage ''room full (2 clients max)'', ConnClose 2]\<rparr>"
    by code_simp
  have w: "wf_world ?s" unfolding s by code_simp
  have b: "0 < length (client_heap ?s)" "1 < length (client_heap ?s)" "2 < length (client_heap ?s)"
    unfolding s by simp_all
  have m: "members ?s = {0, 1}" unfolding s by (simp add: members_def)
  show ?thesis
    using broadcast_enqueues_iff[OF w b(1), of 0 "''f1''"]
      broadcast_enqueues_iff[OF w b(2), of 0 "''f1''"]
      broadcast_enqueues_iff[OF w b(3), of 0 "''f1''"]
    unfolding m unfolding s by (auto simp: pending_def)
qed

text \<open>
  C3. The queue of a member never holds more than 16 messages after a broadcast, and a
  broadcast that finds 16 messages waiting in it leaves the channel exactly as it was: the
  same 16 messages in the same order, the new one absent.
\<close>

theorem full_queue_drops:
  assumes "wf_world s" "b \<in> members s"
  shows "fst (broadcast s sender msg) = None
    \<and> length (pending (snd (broadcast s sender msg)) b) \<le> 16
    \<and> (length (pending s b) = 16 \<longrightarrow>
          chans (snd (broadcast s sender msg)) ! send (client_heap s ! b)
            = chans s ! send (client_heap s ! b)
          \<and> pending (snd (broadcast s sender msg)) b = pending s b)"
proof -
  let ?r = "send (client_heap s ! b)"
  note b = wf_member(1)[OF assms]
  obtain cs where cs: "broadcast s sender msg = (None, s\<lparr>chans := cs\<rparr>)"
     "length cs = length (chans s)"
     "\<forall>r<length cs. cs ! r =
          (if (\<exists>c\<in>members s. c \<noteq> sender \<and> send (client_heap s ! c) = r)
               \<and> length (buf (chans s ! r)) < 16
           then (chans s ! r)\<lparr>buf := buf (chans s ! r) @ [msg]\<rparr> else chans s ! r)"
    using broadcast_spec[OF assms(1), of sender msg] by blast
  have r: "?r < length cs" "?r < length (chans s)" using wf_heap_chan(1)[OF assms(1) b] cs(2) by simp_all
  have le: "length (buf (chans s ! ?r)) \<le> 16" using wf_chan_bound(2)[OF assms(1) r(2)] .
  have p: "pending (snd (broadcast s sender msg)) b = buf (cs ! ?r)"
    using cs(1) by (simp add: pending_def)
  have "length (buf (cs ! ?r)) \<le> 16" using cs(3) r(1) le by auto
  moreover have "cs ! ?r = chans s ! ?r" if "length (pending s b) = 16"
    using cs(3) r(1) that by (simp add: pending_def)
  ultimately show ?thesis using cs(1) p by (auto simp: pending_def)
qed

theorem full_queue_drops_witness:
  "pending (snd (run NewServer [Connect True, Connect True,
       ReaderIter 0 (Some ''a''), ReaderIter 0 (Some ''b''), ReaderIter 0 (Some ''c''),
       ReaderIter 0 (Some ''d''), ReaderIter 0 (Some ''e''), ReaderIter 0 (Some ''f''),
       ReaderIter 0 (Some ''g''), ReaderIter 0 (Some ''h''), ReaderIter 0 (Some ''i''),
       ReaderIter 0 (Some ''j''), ReaderIter 0 (Some ''k''), ReaderIter 0 (Some ''l''),
       ReaderIter 0 (Some ''m''), ReaderIter 0 (Some ''n''), ReaderIter 0 (Some ''o''),
       ReaderIter 0 (Some ''p'')])) 1
     = [''a'', ''b'', ''c'', ''d'', ''e'', ''f'', ''g'', ''h'', ''i'', ''j'', ''k'', ''l'', ''m'', ''n'',
        ''o'', ''p'']
   \<and> pending (snd (broadcast (snd (run NewServer [Connect True, Connect True,
       ReaderIter 0 (Some ''a''), ReaderIter 0 (Some ''b''), ReaderIter 0 (Some ''c''),
       ReaderIter 0 (Some ''d''), ReaderIter 0 (Some ''e''), ReaderIter 0 (Some ''f''),
       ReaderIter 0 (Some ''g''), ReaderIter 0 (Some ''h''), ReaderIter 0 (Some ''i''),
       ReaderIter 0 (Some ''j''), ReaderIter 0 (Some ''k''), ReaderIter 0 (Some ''l''),
       ReaderIter 0 (Some ''m''), ReaderIter 0 (Some ''n''), ReaderIter 0 (Some ''o''),
       ReaderIter 0 (Some ''p'')])) 0 ''q'')) 1
     = [''a'', ''b'', ''c'', ''d'', ''e'', ''f'', ''g'', ''h'', ''i'', ''j'', ''k'', ''l'', ''m'', ''n'',
        ''o'', ''p'']"
proof -
  let ?s = "snd (run NewServer [Connect True, Connect True,
       ReaderIter 0 (Some ''a''), ReaderIter 0 (Some ''b''), ReaderIter 0 (Some ''c''),
       ReaderIter 0 (Some ''d''), ReaderIter 0 (Some ''e''), ReaderIter 0 (Some ''f''),
       ReaderIter 0 (Some ''g''), ReaderIter 0 (Some ''h''), ReaderIter 0 (Some ''i''),
       ReaderIter 0 (Some ''j''), ReaderIter 0 (Some ''k''), ReaderIter 0 (Some ''l''),
       ReaderIter 0 (Some ''m''), ReaderIter 0 (Some ''n''), ReaderIter 0 (Some ''o''),
       ReaderIter 0 (Some ''p'')])"
  have w: "wf_world ?s" by code_simp
  have m: "1 \<in> members ?s" by code_simp
  have p: "pending ?s 1 = [''a'', ''b'', ''c'', ''d'', ''e'', ''f'', ''g'', ''h'', ''i'', ''j'', ''k'', ''l'',
      ''m'', ''n'', ''o'', ''p'']"
    by code_simp
  have l: "length (pending ?s 1) = 16" unfolding p by simp
  show ?thesis using full_queue_drops[OF w m, of 0 "''q''"] l p by metis
qed

text \<open>
  C9. Let the server run any sequence of steps in which frames are read only from the
  sessions \<open>a\<close> and \<open>b\<close>. Then the run does not panic, and what \<open>b\<close> has been given at the
  end (the frames its writer took from the queue, followed by those still waiting) is what
  it had been given before, followed by a subsequence of the frames read from \<open>a\<close> in the
  order they were read: frames are dropped, never reordered, repeated or delivered later.
  In particular the frames the writer of \<open>b\<close> has taken form such a subsequence.
\<close>

theorem in_order_subsequence_delivery:
  assumes "wf_world s" "b < length (client_heap s)"
    and "\<forall>e\<in>set evs. reads_of e \<in> {None, Some a, Some b}"
  shows "fst (run s evs) = None
    \<and> (\<exists>xs. subseq xs (sent_by a evs) \<and> received (snd (run s evs)) b = received s b @ xs)
    \<and> subseq (delivered (snd (run s evs)) b) (received s b @ sent_by a evs)"
proof -
  obtain xs where xs: "subseq xs (offered b evs)" "received (snd (run s evs)) b = received s b @ xs"
    using received_run[OF assms(1,2), of evs] by blast
  have sub: "subseq xs (sent_by a evs)"
    using xs(1) offered_sent_by[OF assms(3)] subseq_order.trans by blast
  have "fst (run s evs) = None"
    using wf_run[OF assms(1), of evs "fst (run s evs)" "snd (run s evs)"] by simp
  moreover have "subseq (delivered (snd (run s evs)) b) (received s b @ sent_by a evs)"
  proof -
    have "subseq (delivered (snd (run s evs)) b) (received (snd (run s evs)) b)"
      unfolding received_def by (rule list_emb_prefix) simp
    moreover have "subseq (received s b @ xs) (received s b @ sent_by a evs)"
      using sub by (simp add: list_emb_append_mono)
    ultimately show ?thesis unfolding xs(2) using subseq_order.trans by blast
  qed
  ultimately show ?thesis using xs(2) sub by blast
qed

theorem in_order_subsequence_delivery_witness:
  "fst (run (snd (run NewServer [Connect True, Connect True]))
      [ReaderIter 0 (Some ''f1''), WriterIter 1 True, ReaderIter 0 (Some ''f2''),
       ReaderIter 1 (Some ''g1''), ReaderIter 0 (Some ''f3''), WriterIter 1 False]) = None
   \<and> (\<exists>xs. subseq xs [''f1'', ''f2'', ''f3''] \<and>
        received (snd (run (snd (run NewServer [Connect True, Connect True]))
          [ReaderIter 0 (Some ''f1''), WriterIter 1 True, ReaderIter 0 (Some ''f2''),
           ReaderIter 1 (Some ''g1''), ReaderIter 0 (Some ''f3''), WriterIter 1 False])) 1 = xs)
   \<and> subseq (delivered (snd (run (snd (run NewServer [Connect True, Connect True]))
          [ReaderIter 0 (Some ''f1''), WriterIter 1 True, ReaderIter 0 (Some ''f2''),
           ReaderIter 1 (Some ''g1''), ReaderIter 0 (Some ''f3''), WriterIter 1 False])) 1)
        [''f1'', ''f2'', ''f3'']"
proof -
  let ?s = "snd (run NewServer [Connect True, Connect True])"
  let ?evs = "[ReaderIter 0 (Some ''f1''), WriterIter 1 True, ReaderIter 0 (Some ''f2''),
       ReaderIter 1 (Some ''g1''), ReaderIter 0 (Some ''f3''), WriterIter 1 False]"
  have w: "wf_world ?s" by code_simp
  have b: "1 < length (client_heap ?s)" by code_simp
  have h: "\<forall>e\<in>set ?evs. reads_of e \<in> {None, Some 0, Some 1}" by simp
  have r: "received ?s 1 = []" by code_simp
  have sb: "sent_by 0 ?evs = [''f1'', ''f2'', ''f3'']" by simp
  show ?thesis
    using in_order_subsequence_delivery[OF w b h] unfolding r sb by simp
qed

end
